theory Spec2Isabelle
  imports Main
begin

section \<open>The variable resolver of \<open>src/lib/tools.ts\<close>\<close>

text \<open>
  \<open>resolveVariables\<close> expands placeholder references \<open>${kind:name}\<close> in a string until the
  string repeats, and then replaces a leading \<open>~\<close> by the home directory.

  Strings are HOL strings: a character is one of the 256 code units a \<open>char\<close> holds, so of
  the four line terminators of the regular-expression dot only line feed and carriage
  return occur. A result is \<open>None\<close> when the call does not return, \<open>Some (Inl e)\<close> when it
  throws \<open>e\<close> and \<open>Some (Inr s)\<close> when it returns \<open>s\<close>.
\<close>

subsection \<open>Data\<close>

text \<open>
  The two exceptions a call can raise: \<open>assert.fail\<close> of the \<open>default\<close> branch, and the
  \<open>TypeError\<close> of reading \<open>folder.uri\<close> when \<open>folder\<close> is \<open>undefined\<close>.
\<close>

datatype error = AssertionError string | TypeError

text \<open>A value of \<open>additionalEnvironment\<close>: \<open>string | string[]\<close>.\<close>

datatype EnvValue = Str (strOf: string) | Arr (arrOf: "string list")

text \<open>\<open>vscode.WorkspaceFolder\<close>: its \<open>name\<close> and its \<open>uri.fsPath\<close>.\<close>

record WorkspaceFolder =
  folderName :: string
  fsPath :: string

text \<open>
  What the function reads from its surroundings: \<open>process.platform === 'win32'\<close>,
  \<open>process.env\<close>, \<open>vscode.workspace.getConfiguration()\<close> (its \<open>get\<close> as a map, the value in
  the string form the replacement inserts), \<open>vscode.workspace.workspaceFolders\<close>
  (\<open>undefined\<close> is \<open>None\<close>), \<open>os.homedir()\<close> and the built-in \<open>toLocaleLowerCase\<close>, which
  depends on the locale of the process.
\<close>

record host =
  win32 :: bool
  processEnv :: "string \<rightharpoonup> string"
  getConfiguration :: "(string \<rightharpoonup> string) option"
  workspaceFolders :: "WorkspaceFolder list option"
  homedir :: string
  toLocaleLowerCase :: "string \<Rightarrow> string"

text \<open>
  One match of the regular expression, as the replacement callback receives it: the
  matched text, the second group (\<open>undefined\<close> is \<open>None\<close>) and the fourth group.
\<close>

record placeholder =
  rawMatch :: string
  varType :: "string option"
  varName :: string

subsection \<open>The regular expression\<close>

definition envDelimiter :: "host \<Rightarrow> string" where
  "envDelimiter h = (if win32 h then '';'' else '':'')"

definition isLineTerminator :: "char \<Rightarrow> bool" where
  "isLineTerminator c \<longleftrightarrow> c = CHR 0x0A \<or> c = CHR 0x0D"

text \<open>The alternatives of the second group, in the order the expression tries them.\<close>

definition kinds :: "string list" where
  "kinds = [''env'', ''config'', ''workspaceFolder'', ''file'', ''fileDirname'',
            ''fileBasenameNoExtension'']"

fun stripPrefix :: "string \<Rightarrow> string \<Rightarrow> string option" where
  "stripPrefix [] s = Some s"
| "stripPrefix (p # ps) [] = None"
| "stripPrefix (p # ps) (c # cs) = (if p = c then stripPrefix ps cs else None)"

text \<open>
  \<open>(.*?)\}\<close>: the lazy star first tries the closing brace, and only then lets the dot take
  one more character, which must not be a line terminator. The result is the name and
  the text after the brace.
\<close>

fun lazyName :: "string \<Rightarrow> (string \<times> string) option" where
  "lazyName [] = None"
| "lazyName (c # cs) =
     (if c = CHR ''}'' then Some ([], cs)
      else if isLineTerminator c then None
      else (case lazyName cs of None \<Rightarrow> None | Some (n, r) \<Rightarrow> Some (c # n, r)))"

text \<open>
  \<open>((env|config|...)(\.|:))\<close> followed by the rest of the expression: each alternative in
  turn, then the separator, then the name; when the rest fails the next alternative is
  tried.
\<close>

fun matchKinds :: "string list \<Rightarrow> string \<Rightarrow> (string \<times> char \<times> string \<times> string) option" where
  "matchKinds [] s = None"
| "matchKinds (k # ks) s =
     (case stripPrefix k s of
        Some (c # cs) \<Rightarrow>
          (if c = CHR ''.'' \<or> c = CHR '':'' then
             (case lazyName cs of
                Some (n, r) \<Rightarrow> Some (k, c, n, r)
              | None \<Rightarrow> matchKinds ks s)
           else matchKinds ks s)
      | _ \<Rightarrow> matchKinds ks s)"

text \<open>
  A match of the whole expression at the start of \<open>s\<close>: \<open>${\<close>, the optional group (taken
  when it can be), the name and the brace. The result is the match and the text after it.
\<close>

definition matchHere :: "string \<Rightarrow> (placeholder \<times> string) option" where
  "matchHere s =
     (case stripPrefix ''${'' s of
        None \<Rightarrow> None
      | Some body \<Rightarrow>
          (case matchKinds kinds body of
             Some (k, c, n, r) \<Rightarrow>
               Some (\<lparr>rawMatch = ''${'' @ k @ [c] @ n @ ''}'', varType = Some k, varName = n\<rparr>, r)
           | None \<Rightarrow>
               (case lazyName body of
                  Some (n, r) \<Rightarrow>
                    Some (\<lparr>rawMatch = ''${'' @ n @ ''}'', varType = None, varName = n\<rparr>, r)
                | None \<Rightarrow> None)))"

text \<open>
  \<open>String.prototype.replace\<close> with a global expression and a callback: the matches are
  found from left to right, each search starting where the last match ended; the text
  between matches is copied and each match is replaced by what the callback returns. An
  exception of the callback ends the call.
\<close>

function replaceGlobal :: "(placeholder \<Rightarrow> error + string) \<Rightarrow> string \<Rightarrow> error + string" where
  "replaceGlobal f [] = Inr []"
| "replaceGlobal f (c # cs) =
     (case matchHere (c # cs) of
        None \<Rightarrow>
          (case replaceGlobal f cs of Inl e \<Rightarrow> Inl e | Inr out \<Rightarrow> Inr (c # out))
      | Some (p, r) \<Rightarrow>
          (case f p of
             Inl e \<Rightarrow> Inl e
           | Inr v \<Rightarrow>
               (case replaceGlobal f r of Inl e \<Rightarrow> Inl e | Inr out \<Rightarrow> Inr (v @ out))))"
  by pat_completeness auto
termination
proof (relation "measure (\<lambda>(f, s). length s)")
  have strip: "stripPrefix p s = Some r \<Longrightarrow> length r \<le> length s" for p s r
    by (induction p s rule: stripPrefix.induct) (auto split: if_splits)
  have lazy: "lazyName s = Some (n, r) \<Longrightarrow> length r < length s" for s n r
    by (induction s arbitrary: n r) (auto split: if_splits option.splits)
  have kind: "matchKinds ks s = Some (k, c, n, r) \<Longrightarrow> length r < length s" for ks s k c n r
    by (induction ks)
      (auto split: option.splits list.splits if_splits dest!: strip lazy)
  have here: "matchHere s = Some (p, r) \<Longrightarrow> length r < length s" for s p r
    unfolding matchHere_def
    by (auto split: option.splits dest!: strip lazy kind)
  show "wf (measure (\<lambda>(f, s). length s))" by simp
  show "((f, cs), f, c # cs) \<in> measure (\<lambda>(f, s). length s)"
    for f :: "placeholder \<Rightarrow> error + string" and c :: char and cs
    by simp
  show "((f, r), f, c # cs) \<in> measure (\<lambda>(f, s). length s)"
    if "matchHere (c # cs) = Some x2" "(p, r) = x2"
    for f :: "placeholder \<Rightarrow> error + string" and c cs x2 p r
    using that here [of "c # cs" p r] by simp
qed

text \<open>
  The matches that \<open>replaceGlobal\<close> hands to the callback when no call fails, from left
  to right.
\<close>

function allMatches :: "string \<Rightarrow> placeholder list" where
  "allMatches [] = []"
| "allMatches (c # cs) =
     (case matchHere (c # cs) of
        None \<Rightarrow> allMatches cs
      | Some (p, r) \<Rightarrow> p # allMatches r)"
  by pat_completeness auto
termination
proof (relation "measure length")
  have strip: "stripPrefix p s = Some r \<Longrightarrow> length r \<le> length s" for p s r
    by (induction p s rule: stripPrefix.induct) (auto split: if_splits)
  have lazy: "lazyName s = Some (n, r) \<Longrightarrow> length r < length s" for s n r
    by (induction s arbitrary: n r) (auto split: if_splits option.splits)
  have kind: "matchKinds ks s = Some (k, c, n, r) \<Longrightarrow> length r < length s" for ks s k c n r
    by (induction ks)
      (auto split: option.splits list.splits if_splits dest!: strip lazy)
  have here: "matchHere s = Some (p, r) \<Longrightarrow> length r < length s" for s p r
    unfolding matchHere_def
    by (auto split: option.splits dest!: strip lazy kind)
  show "wf (measure (length :: string \<Rightarrow> nat))" by simp
  show "(cs, c # cs) \<in> measure length" for c :: char and cs by simp
  show "(r, c # cs) \<in> measure length"
    if "matchHere (c # cs) = Some x2" "(p, r) = x2" for c cs x2 p r
    using that here [of "c # cs" p r] by simp
qed

subsection \<open>The replacement callback\<close>

text \<open>
  Modelled from the spec: \<open>isString\<close> and \<open>isArrayOfString\<close> of \<open>./helper\<close>, which is not
  among the sources; the overlay holds a name "as a plain string" or "as a sequence of
  strings".
\<close>

fun isString :: "EnvValue \<Rightarrow> bool" where
  "isString (Str s) = True"
| "isString (Arr a) = False"

fun isArrayOfString :: "EnvValue \<Rightarrow> bool" where
  "isArrayOfString (Str s) = False"
| "isArrayOfString (Arr a) = True"

text \<open>\<open>Array.prototype.join\<close>.\<close>

fun join :: "string \<Rightarrow> string list \<Rightarrow> string" where
  "join d [] = []"
| "join d [x] = x"
| "join d (x # y # ys) = x @ d @ join d (y # ys)"

text \<open>
  The \<open>switch\<close> of the callback: the value of \<open>newValue\<close> after it (\<open>undefined\<close> is
  \<open>None\<close>), or the exception it raises.
\<close>

definition newValue ::
  "host \<Rightarrow> (string \<rightharpoonup> EnvValue) option \<Rightarrow> string \<Rightarrow> placeholder \<Rightarrow> error + string option" where
  "newValue h additionalEnvironment input p =
     (let vt = (case varType p of None \<Rightarrow> ''workspaceFolder'' | Some t \<Rightarrow> t);
          name = varName p
      in
      if vt = ''env'' then
        (let nv =
           (case additionalEnvironment of
              None \<Rightarrow> None
            | Some ae \<Rightarrow>
                (case ae name of
                   None \<Rightarrow> None
                 | Some v \<Rightarrow>
                     if isString v then Some (strOf v)
                     else if input = rawMatch p \<and> isArrayOfString v
                       then Some (join (envDelimiter h) (arrOf v))
                     else None))
         in Inr (case nv of None \<Rightarrow> processEnv h name | Some v \<Rightarrow> Some v))
      else if vt = ''config'' then
        Inr (case getConfiguration h of None \<Rightarrow> None | Some config \<Rightarrow> config name)
      else if vt = ''workspaceFolder'' then
        (case workspaceFolders h of
           None \<Rightarrow> Inr None
         | Some folders \<Rightarrow>
             if name = [] then Inr None
             else
               (case find (\<lambda>folder. toLocaleLowerCase h (folderName folder)
                                     = toLocaleLowerCase h name) folders of
                  Some folder \<Rightarrow> Inr (Some (fsPath folder))
                | None \<Rightarrow>
                    (case folders of
                       [] \<Rightarrow> Inl TypeError
                     | folder # _ \<Rightarrow> Inr (Some (fsPath folder)))))
      else Inl (AssertionError ''unknown varType matched''))"

text \<open>\<open>return newValue !== undefined ? newValue : match\<close>.\<close>

definition replacer ::
  "host \<Rightarrow> (string \<rightharpoonup> EnvValue) option \<Rightarrow> string \<Rightarrow> placeholder \<Rightarrow> error + string" where
  "replacer h additionalEnvironment input p =
     (case newValue h additionalEnvironment input p of
        Inl e \<Rightarrow> Inl e
      | Inr None \<Rightarrow> Inr (rawMatch p)
      | Inr (Some v) \<Rightarrow> Inr v)"

subsection \<open>The loop and the function\<close>

text \<open>
  \<open>while (!cycleCache.has(ret)) { cycleCache.add(ret); ret = ret.replace(...) }\<close>, with
  the rewriting of one pass as \<open>pass\<close>. The loop has no bound, so it is a partial function.
\<close>

partial_function (option) expand ::
  "(string \<Rightarrow> error + string) \<Rightarrow> string set \<Rightarrow> string \<Rightarrow> (error + string) option" where
  "expand pass cycleCache ret =
     (if ret \<in> cycleCache then Some (Inr ret)
      else (case pass ret of
              Inl e \<Rightarrow> Some (Inl e)
            | Inr ret' \<Rightarrow> expand pass (insert ret cycleCache) ret'))"

text \<open>\<open>ret.replace(/^~/g, () => os.homedir())\<close>.\<close>

definition replaceHome :: "string \<Rightarrow> string \<Rightarrow> string" where
  "replaceHome home s =
     (case s of [] \<Rightarrow> [] | c # cs \<Rightarrow> if c = CHR ''~'' then home @ cs else c # cs)"

definition resolveVariables ::
  "host \<Rightarrow> string option \<Rightarrow> (string \<rightharpoonup> EnvValue) option \<Rightarrow> (error + string) option" where
  "resolveVariables h input additionalEnvironment =
     (case input of
        None \<Rightarrow> Some (Inr [])
      | Some inp \<Rightarrow>
          if inp = [] then Some (Inr [])
          else
            (case expand (replaceGlobal (replacer h additionalEnvironment inp)) {} inp of
               None \<Rightarrow> None
             | Some (Inl e) \<Rightarrow> Some (Inl e)
             | Some (Inr ret) \<Rightarrow> Some (Inr (replaceHome (homedir h) ret))))"

text \<open>
  The sequence of rewritten strings: \<open>iterate pass n s\<close> is the string after \<open>n\<close> passes from
  \<open>s\<close>, or the exception of the first pass that fails.
\<close>

fun iterate :: "(string \<Rightarrow> error + string) \<Rightarrow> nat \<Rightarrow> string \<Rightarrow> error + string" where
  "iterate pass 0 s = Inr s"
| "iterate pass (Suc n) s =
     (case pass s of Inl e \<Rightarrow> Inl e | Inr s' \<Rightarrow> iterate pass n s')"

subsection \<open>Hosts of the examples\<close>

text \<open>Lower case of the ASCII letters, as \<open>toLocaleLowerCase\<close> of the examples.\<close>

definition asciiLower :: "string \<Rightarrow> string" where
  "asciiLower s =
     map (\<lambda>c. case map_of (zip ''ABCDEFGHIJKLMNOPQRSTUVWXYZ'' ''abcdefghijklmnopqrstuvwxyz'') c of
                None \<Rightarrow> c | Some l \<Rightarrow> l) s"

text \<open>
  A host on Linux with an empty environment, an empty configuration, no workspace and
  the home directory \<open>/home/u\<close>.
\<close>

definition bareHost :: host where
  "bareHost = \<lparr>win32 = False, processEnv = Map.empty, getConfiguration = Some Map.empty,
     workspaceFolders = None, homedir = ''/home/u'', toLocaleLowerCase = asciiLower\<rparr>"

text \<open>
  A host with the two workspace folders \<open>foo\<close> at \<open>/a\<close> and \<open>bar\<close> at \<open>/b\<close>, and one with the
  folder \<open>bar\<close> only.
\<close>

definition twoFolderHost :: host where
  "twoFolderHost = bareHost\<lparr>workspaceFolders :=
     Some [\<lparr>folderName = ''foo'', fsPath = ''/a''\<rparr>, \<lparr>folderName = ''bar'', fsPath = ''/b''\<rparr>]\<rparr>"

definition barHost :: host where
  "barHost = bareHost\<lparr>workspaceFolders := Some [\<lparr>folderName = ''bar'', fsPath = ''/b''\<rparr>]\<rparr>"

text \<open>An overlay with a sequence for \<open>PATHLIST\<close> and a string for \<open>X\<close>.\<close>

definition pathlist :: "string \<rightharpoonup> EnvValue" where
  "pathlist = [''PATHLIST'' \<mapsto> Arr [''a'', ''b''], ''X'' \<mapsto> Str ''5'']"

section \<open>Properties\<close>

subsection \<open>Evaluation and the callback by kind\<close>

lemmas run_defs = resolveVariables_def expand.simps matchHere_def kinds_def replacer_def
  newValue_def replaceHome_def isLineTerminator_def envDelimiter_def

lemmas host_defs = bareHost_def twoFolderHost_def barHost_def asciiLower_def

lemma newValue_workspaceFolder:
  assumes "varType p = None \<or> varType p = Some ''workspaceFolder''"
  shows "newValue h ae input p =
    (case workspaceFolders h of
       None \<Rightarrow> Inr None
     | Some folders \<Rightarrow>
         if varName p = [] then Inr None
         else (case find (\<lambda>folder. toLocaleLowerCase h (folderName folder)
                                     = toLocaleLowerCase h (varName p)) folders of
                 Some folder \<Rightarrow> Inr (Some (fsPath folder))
               | None \<Rightarrow> (case folders of [] \<Rightarrow> Inl TypeError
                           | folder # _ \<Rightarrow> Inr (Some (fsPath folder)))))"
proof -
  have "(case varType p of None \<Rightarrow> ''workspaceFolder'' | Some t \<Rightarrow> t) = ''workspaceFolder''"
    using assms by (cases "varType p") simp_all
  then show ?thesis
    by (simp add: newValue_def Let_def)
qed

lemma replacer_workspaceFolder:
  assumes "varType p = None \<or> varType p = Some ''workspaceFolder''"
  shows "replacer h ae input p =
    (case workspaceFolders h of
       None \<Rightarrow> Inr (rawMatch p)
     | Some folders \<Rightarrow>
         if varName p = [] then Inr (rawMatch p)
         else (case find (\<lambda>folder. toLocaleLowerCase h (folderName folder)
                                     = toLocaleLowerCase h (varName p)) folders of
                 Some folder \<Rightarrow> Inr (fsPath folder)
               | None \<Rightarrow> (case folders of [] \<Rightarrow> Inl TypeError
                           | folder # _ \<Rightarrow> Inr (fsPath folder))))"
  unfolding replacer_def newValue_workspaceFolder [OF assms]
  by (simp split: option.split list.split)

subsection \<open>Absent and empty input\<close>

text \<open>
  C10: for the absent input and for the empty string the function returns the empty
  string, whatever the host and the overlay are: nothing is expanded and the home
  directory is not inserted.
\<close>

theorem resolveVariables_absent_or_empty:
  "resolveVariables h None ae = Some (Inr [])
   \<and> resolveVariables h (Some []) ae = Some (Inr [])"
  by (simp add: resolveVariables_def)

subsection \<open>The \<open>default\<close> branch\<close>

text \<open>
  C2: the claim is that no input reaches \<open>assert.fail\<close>. The input \<open>${file:x}\<close> does, on
  every host and with every overlay: the expression accepts the kind \<open>file\<close> and the
  \<open>switch\<close> has no case for it.
\<close>

theorem file_kind_reaches_assert_fail:
  "resolveVariables h (Some ''${file:x}'') ae
     = Some (Inl (AssertionError ''unknown varType matched''))"
  by (simp add: run_defs)

lemma replaceGlobal_single:
  "matchHere s = Some (p, []) \<Longrightarrow>
   replaceGlobal f s = (case f p of Inl e \<Rightarrow> Inl e | Inr v \<Rightarrow> Inr v)"
  by (cases s) (auto simp: matchHere_def split: sum.split)

lemma replaceGlobal_first_fails:
  "matchHere s = Some (p, r) \<Longrightarrow> f p = Inl e \<Longrightarrow> replaceGlobal f s = Inl e"
  by (cases s) (auto simp: matchHere_def)

lemma find_in_set: "find P xs = Some x \<Longrightarrow> x \<in> set xs"
  by (auto simp: find_Some_iff)

subsection \<open>The kinds \<open>file\<close>, \<open>fileDirname\<close> and \<open>fileBasenameNoExtension\<close>\<close>

text \<open>
  C1, as the claim states it, fails: with the one workspace folder \<open>bar\<close> at \<open>/b\<close> the
  input \<open>${file}\<close> resolves to \<open>/b\<close>. The expression takes a kind only together with its
  separator, so \<open>${file}\<close> is an unqualified reference with the name \<open>file\<close>.
\<close>

theorem file_reference_resolves_to_folder:
  "resolveVariables barHost (Some ''${file}'') None = Some (Inr ''/b'')"
  by (simp add: run_defs host_defs)

text \<open>
  C1, amended: a reference \<open>${file}\<close>, \<open>${fileDirname}\<close> or \<open>${fileBasenameNoExtension}\<close>
  has no separator, so the expression gives it no kind and the token as its name, and
  it is handled as a workspace folder. When no workspace folders are known the function
  returns it unchanged, for every environment, configuration and overlay; when there
  is a folder, the pass replaces it by the path of one of the folders.
\<close>

theorem file_without_separator_is_unqualified:
  assumes "t \<in> {''file'', ''fileDirname'', ''fileBasenameNoExtension''}"
  shows "matchHere (''${'' @ t @ ''}'') =
           Some (\<lparr>rawMatch = ''${'' @ t @ ''}'', varType = None, varName = t\<rparr>, [])
       \<and> (workspaceFolders h = None \<longrightarrow>
            resolveVariables h (Some (''${'' @ t @ ''}'')) ae = Some (Inr (''${'' @ t @ ''}'')))
       \<and> (\<forall>f fs. workspaceFolders h = Some (f # fs) \<longrightarrow>
            (\<exists>g \<in> set (f # fs).
               replaceGlobal (replacer h ae (''${'' @ t @ ''}'')) (''${'' @ t @ ''}'')
                 = Inr (fsPath g)))"
proof -
  let ?s = "''${'' @ t @ ''}''"
  let ?p = "\<lparr>rawMatch = ?s, varType = None, varName = t\<rparr>"
  have t: "t \<noteq> []" using assms by auto
  have m: "matchHere ?s = Some (?p, [])"
    using assms by (auto simp: matchHere_def kinds_def isLineTerminator_def)
  have pass: "replaceGlobal (replacer h ae i) ?s = replacer h ae i ?p" for i
    by (simp only: replaceGlobal_single [OF m]) (simp split: sum.split)
  have none: "resolveVariables h (Some ?s) ae = Some (Inr ?s)" if "workspaceFolders h = None"
  proof -
    have "replaceGlobal (replacer h ae ?s) ?s = Inr ?s"
      unfolding pass using that by (simp add: replacer_workspaceFolder)
    then have "expand (replaceGlobal (replacer h ae ?s)) {} ?s = Some (Inr ?s)"
      by (subst expand.simps, simp, subst expand.simps, simp)
    then show ?thesis
      by (simp add: resolveVariables_def replaceHome_def)
  qed
  have some: "\<exists>g \<in> set (f # fs). replaceGlobal (replacer h ae ?s) ?s = Inr (fsPath g)"
    if "workspaceFolders h = Some (f # fs)" for f fs
    unfolding pass using that t
    by (auto simp: replacer_workspaceFolder split: option.split dest: find_in_set)
  from m none some show ?thesis by blast
qed

theorem file_without_separator_is_unqualified_witness:
  "''file'' \<in> {''file'', ''fileDirname'', ''fileBasenameNoExtension''}
   \<and> workspaceFolders bareHost = None
   \<and> resolveVariables bareHost (Some ''${file}'') None = Some (Inr ''${file}'')
   \<and> workspaceFolders barHost = Some [\<lparr>folderName = ''bar'', fsPath = ''/b''\<rparr>]
   \<and> replaceGlobal (replacer barHost None ''${file}'') ''${file}'' = Inr ''/b''"
  using file_without_separator_is_unqualified [of "''file''" bareHost None]
    file_without_separator_is_unqualified [of "''file''" barHost None]
  by (simp add: host_defs)

subsection \<open>Workspace folders\<close>

text \<open>
  The examples of the specification: \<open>${foo}\<close> with the folders \<open>foo\<close> and \<open>bar\<close>, with
  \<open>bar\<close> alone and with no workspace.
\<close>

lemma unqualified_examples:
  "resolveVariables twoFolderHost (Some ''${foo}'') None = Some (Inr ''/a'')"
  "resolveVariables barHost (Some ''${foo}'') None = Some (Inr ''/b'')"
  "resolveVariables bareHost (Some ''${foo}'') None = Some (Inr ''${foo}'')"
  by (simp_all add: run_defs host_defs)

text \<open>
  What the callback does with a reference of kind \<open>workspaceFolder\<close>, or with no kind at
  all, and a name that is not empty: it is replaced by the path of the first folder
  whose name equals it when both are put in lower case; by the path of the first folder
  when there is a folder and none has the name; and by its own text when
  \<open>workspaceFolders\<close> is \<open>undefined\<close>. Neither the environment nor the overlay is read.
\<close>

lemma workspaceFolder_resolution:
  assumes "varType p = None \<or> varType p = Some ''workspaceFolder''"
    and "varName p \<noteq> []"
  shows "(\<forall>folders i.
            workspaceFolders h = Some folders \<and> i < length folders
            \<and> toLocaleLowerCase h (folderName (folders ! i)) = toLocaleLowerCase h (varName p)
            \<and> (\<forall>j<i. toLocaleLowerCase h (folderName (folders ! j))
                        \<noteq> toLocaleLowerCase h (varName p))
            \<longrightarrow> replacer h ae input p = Inr (fsPath (folders ! i)))
       \<and> (\<forall>folder folders.
            workspaceFolders h = Some (folder # folders)
            \<and> (\<forall>g \<in> set (folder # folders).
                  toLocaleLowerCase h (folderName g) \<noteq> toLocaleLowerCase h (varName p))
            \<longrightarrow> replacer h ae input p = Inr (fsPath folder))
       \<and> (workspaceFolders h = None \<longrightarrow> replacer h ae input p = Inr (rawMatch p))"
proof (intro conjI allI impI)
  fix folders i
  let ?P = "\<lambda>folder. toLocaleLowerCase h (folderName folder) = toLocaleLowerCase h (varName p)"
  assume a: "workspaceFolders h = Some folders \<and> i < length folders
            \<and> toLocaleLowerCase h (folderName (folders ! i)) = toLocaleLowerCase h (varName p)
            \<and> (\<forall>j<i. toLocaleLowerCase h (folderName (folders ! j))
                        \<noteq> toLocaleLowerCase h (varName p))"
  then have "find ?P folders = Some (folders ! i)"
    unfolding find_Some_iff by blast
  with a assms show "replacer h ae input p = Inr (fsPath (folders ! i))"
    by (simp add: replacer_workspaceFolder)
next
  fix folder folders
  let ?P = "\<lambda>folder. toLocaleLowerCase h (folderName folder) = toLocaleLowerCase h (varName p)"
  assume a: "workspaceFolders h = Some (folder # folders)
            \<and> (\<forall>g \<in> set (folder # folders).
                  toLocaleLowerCase h (folderName g) \<noteq> toLocaleLowerCase h (varName p))"
  then have "find ?P (folder # folders) = None"
    unfolding find_None_iff by blast
  with a assms show "replacer h ae input p = Inr (fsPath folder)"
    by (simp add: replacer_workspaceFolder)
next
  assume "workspaceFolders h = None"
  with assms show "replacer h ae input p = Inr (rawMatch p)"
    by (simp add: replacer_workspaceFolder)
qed

lemma workspaceFolder_resolution_examples:
  "replacer twoFolderHost None ''${foo}''
      \<lparr>rawMatch = ''${foo}'', varType = None, varName = ''foo''\<rparr> = Inr ''/a''
   \<and> replacer barHost None ''${foo}''
      \<lparr>rawMatch = ''${foo}'', varType = None, varName = ''foo''\<rparr> = Inr ''/b''
   \<and> replacer bareHost None ''${foo}''
      \<lparr>rawMatch = ''${foo}'', varType = None, varName = ''foo''\<rparr> = Inr ''${foo}''"
proof -
  let ?p = "\<lparr>rawMatch = ''${foo}'', varType = None, varName = ''foo''\<rparr>"
  let ?fs = "[\<lparr>folderName = ''foo'', fsPath = ''/a''\<rparr>, \<lparr>folderName = ''bar'', fsPath = ''/b''\<rparr>]"
  have "replacer twoFolderHost None ''${foo}'' ?p = Inr (fsPath (?fs ! 0))"
    by (rule workspaceFolder_resolution [of ?p twoFolderHost None "''${foo}''", THEN conjunct1, rule_format])
      (simp_all add: host_defs)
  moreover have "replacer barHost None ''${foo}'' ?p = Inr ''/b''"
    using workspaceFolder_resolution [of ?p barHost None "''${foo}''"]
    by (simp add: host_defs)
  moreover have "replacer bareHost None ''${foo}'' ?p = Inr ''${foo}''"
    using workspaceFolder_resolution [of ?p bareHost None "''${foo}''"]
    by (simp add: host_defs)
  ultimately show ?thesis by simp
qed

text \<open>
  C5: the claim is that a reference handled as a workspace folder is left as it is when
  no workspace folder is known. When \<open>workspaceFolders\<close> is an empty array, the inputs
  \<open>${foo}\<close> and \<open>${workspaceFolder:foo}\<close> make the function throw instead, on every host and
  with every overlay: the condition of line 175 tests that the array is defined, not
  that it has an element, and the fallback reads \<open>uri\<close> of \<open>workspaceFolders[0]\<close>.
\<close>

theorem reference_with_empty_folder_list_throws:
  "resolveVariables (h\<lparr>workspaceFolders := Some []\<rparr>) (Some ''${foo}'') ae
     = Some (Inl TypeError)
   \<and> resolveVariables (h\<lparr>workspaceFolders := Some []\<rparr>) (Some ''${workspaceFolder:foo}'') ae
     = Some (Inl TypeError)"
  by (simp add: run_defs)

text \<open>
  C6: when \<open>workspaceFolders\<close> is an empty array, a reference of kind
  \<open>workspaceFolder\<close> (or of no kind) with a name that is not empty makes the callback
  read \<open>uri\<close> of \<open>undefined\<close>: the callback throws, and so does the function on an input
  that starts with such a reference. With an array that is not empty the callback
  returns, and with \<open>undefined\<close> it leaves the reference as it is.
\<close>

theorem empty_folder_list_fails:
  assumes "varType p = None \<or> varType p = Some ''workspaceFolder''"
    and "varName p \<noteq> []"
  shows "(workspaceFolders h = Some [] \<longrightarrow> replacer h ae input p = Inl TypeError)
       \<and> (\<forall>s r. workspaceFolders h = Some [] \<and> matchHere s = Some (p, r) \<longrightarrow>
             resolveVariables h (Some s) ae = Some (Inl TypeError))
       \<and> (\<forall>folders. workspaceFolders h = Some folders \<and> folders \<noteq> [] \<longrightarrow>
             (\<exists>v. replacer h ae input p = Inr v))
       \<and> (workspaceFolders h = None \<longrightarrow> replacer h ae input p = Inr (rawMatch p))"
proof (intro conjI allI impI)
  assume "workspaceFolders h = Some []"
  with assms show "replacer h ae input p = Inl TypeError"
    by (simp add: replacer_workspaceFolder)
next
  fix s r
  assume a: "workspaceFolders h = Some [] \<and> matchHere s = Some (p, r)"
  with assms have "replacer h ae s p = Inl TypeError"
    by (simp add: replacer_workspaceFolder)
  with a have f: "replaceGlobal (replacer h ae s) s = Inl TypeError"
    by (simp add: replaceGlobal_first_fails)
  from a have "s \<noteq> []" by (auto simp: matchHere_def)
  with f show "resolveVariables h (Some s) ae = Some (Inl TypeError)"
    by (simp add: resolveVariables_def expand.simps)
next
  fix folders
  assume "workspaceFolders h = Some folders \<and> folders \<noteq> []"
  with assms show "\<exists>v. replacer h ae input p = Inr v"
    by (cases folders) (auto simp: replacer_workspaceFolder split: option.split)
next
  assume "workspaceFolders h = None"
  with assms show "replacer h ae input p = Inr (rawMatch p)"
    by (simp add: replacer_workspaceFolder)
qed

theorem empty_folder_list_fails_witness:
  "workspaceFolders (bareHost\<lparr>workspaceFolders := Some []\<rparr>) = Some []
   \<and> matchHere ''${foo}/src'' = Some (\<lparr>rawMatch = ''${foo}'', varType = None, varName = ''foo''\<rparr>, ''/src'')
   \<and> replacer (bareHost\<lparr>workspaceFolders := Some []\<rparr>) None ''${foo}/src''
        \<lparr>rawMatch = ''${foo}'', varType = None, varName = ''foo''\<rparr> = Inl TypeError
   \<and> resolveVariables (bareHost\<lparr>workspaceFolders := Some []\<rparr>) (Some ''${foo}/src'') None
        = Some (Inl TypeError)
   \<and> replacer barHost None ''${foo}/src''
        \<lparr>rawMatch = ''${foo}'', varType = None, varName = ''foo''\<rparr> = Inr ''/b''"
proof -
  let ?p = "\<lparr>rawMatch = ''${foo}'', varType = None, varName = ''foo''\<rparr>"
  let ?h = "bareHost\<lparr>workspaceFolders := Some []\<rparr>"
  have m: "matchHere ''${foo}/src'' = Some (?p, ''/src'')"
    by (simp add: matchHere_def kinds_def isLineTerminator_def)
  have b: "replacer barHost None ''${foo}/src'' ?p = Inr ''/b''"
    by (simp add: replacer_workspaceFolder host_defs)
  show ?thesis
    using empty_folder_list_fails [of ?p ?h None "''${foo}/src''"] m b
    by (simp add: host_defs)
qed

subsection \<open>Environment variables\<close>

text \<open>
  The examples of the specification: the string of the overlay wins over the
  environment; the sequence is joined when the reference is the whole input, and is not
  when the reference is part of a longer input.
\<close>

lemma env_examples:
  "resolveVariables (bareHost\<lparr>processEnv := [''X'' \<mapsto> ''7'']\<rparr>) (Some ''${env:X}'') (Some pathlist)
     = Some (Inr ''5'')"
  "resolveVariables bareHost (Some ''${env:PATHLIST}'') (Some pathlist) = Some (Inr ''a:b'')"
  "resolveVariables bareHost (Some ''x=${env:PATHLIST}'') (Some pathlist)
     = Some (Inr ''x=${env:PATHLIST}'')"
  by (simp_all add: run_defs host_defs pathlist_def)

text \<open>
  C4: for a reference of kind \<open>env\<close> with the name \<open>N\<close>: a string of the overlay for \<open>N\<close> is
  the replacement, whatever the environment holds; a sequence of the overlay for \<open>N\<close> is
  joined with \<open>;\<close> on Windows and \<open>:\<close> elsewhere when the text of the reference is the whole
  original input; when it is not, the sequence is not used and the replacement is the
  value of \<open>N\<close> in the environment, or the reference itself when there is none. The same
  holds when there is no overlay or the overlay has no \<open>N\<close>.
\<close>

theorem env_resolution:
  assumes "varType p = Some ''env''"
  shows "(\<forall>overlay v. ae = Some overlay \<and> overlay (varName p) = Some (Str v) \<longrightarrow>
            replacer h ae input p = Inr v)
       \<and> (\<forall>overlay vs. ae = Some overlay \<and> overlay (varName p) = Some (Arr vs)
              \<and> input = rawMatch p \<longrightarrow>
            replacer h ae input p = Inr (join (if win32 h then '';'' else '':'') vs))
       \<and> (\<forall>overlay vs. ae = Some overlay \<and> overlay (varName p) = Some (Arr vs)
              \<and> input \<noteq> rawMatch p \<longrightarrow>
            replacer h ae input p =
              (case processEnv h (varName p) of None \<Rightarrow> Inr (rawMatch p) | Some v \<Rightarrow> Inr v))
       \<and> ((ae = None \<or> (\<exists>overlay. ae = Some overlay \<and> overlay (varName p) = None)) \<longrightarrow>
            replacer h ae input p =
              (case processEnv h (varName p) of None \<Rightarrow> Inr (rawMatch p) | Some v \<Rightarrow> Inr v))"
  using assms
  by (auto simp: replacer_def newValue_def envDelimiter_def Let_def split: option.split)

theorem env_resolution_witness:
  "replacer (bareHost\<lparr>processEnv := [''X'' \<mapsto> ''7'']\<rparr>) (Some pathlist) ''${env:X}''
      \<lparr>rawMatch = ''${env:X}'', varType = Some ''env'', varName = ''X''\<rparr> = Inr ''5''
   \<and> replacer bareHost (Some pathlist) ''${env:PATHLIST}''
      \<lparr>rawMatch = ''${env:PATHLIST}'', varType = Some ''env'', varName = ''PATHLIST''\<rparr> = Inr ''a:b''
   \<and> replacer (bareHost\<lparr>win32 := True\<rparr>) (Some pathlist) ''${env:PATHLIST}''
      \<lparr>rawMatch = ''${env:PATHLIST}'', varType = Some ''env'', varName = ''PATHLIST''\<rparr> = Inr ''a;b''
   \<and> replacer bareHost (Some pathlist) ''x=${env:PATHLIST}''
      \<lparr>rawMatch = ''${env:PATHLIST}'', varType = Some ''env'', varName = ''PATHLIST''\<rparr>
        = Inr ''${env:PATHLIST}''
   \<and> replacer (bareHost\<lparr>processEnv := [''PATHLIST'' \<mapsto> ''/bin'']\<rparr>) (Some pathlist) ''x=${env:PATHLIST}''
      \<lparr>rawMatch = ''${env:PATHLIST}'', varType = Some ''env'', varName = ''PATHLIST''\<rparr>
        = Inr ''/bin''"
  using
    env_resolution [of "\<lparr>rawMatch = ''${env:X}'', varType = Some ''env'', varName = ''X''\<rparr>"
      "Some pathlist" "bareHost\<lparr>processEnv := [''X'' \<mapsto> ''7'']\<rparr>" "''${env:X}''"]
    env_resolution [of "\<lparr>rawMatch = ''${env:PATHLIST}'', varType = Some ''env'', varName = ''PATHLIST''\<rparr>"
      "Some pathlist" bareHost "''${env:PATHLIST}''"]
    env_resolution [of "\<lparr>rawMatch = ''${env:PATHLIST}'', varType = Some ''env'', varName = ''PATHLIST''\<rparr>"
      "Some pathlist" "bareHost\<lparr>win32 := True\<rparr>" "''${env:PATHLIST}''"]
    env_resolution [of "\<lparr>rawMatch = ''${env:PATHLIST}'', varType = Some ''env'', varName = ''PATHLIST''\<rparr>"
      "Some pathlist" bareHost "''x=${env:PATHLIST}''"]
    env_resolution [of "\<lparr>rawMatch = ''${env:PATHLIST}'', varType = Some ''env'', varName = ''PATHLIST''\<rparr>"
      "Some pathlist" "bareHost\<lparr>processEnv := [''PATHLIST'' \<mapsto> ''/bin'']\<rparr>" "''x=${env:PATHLIST}''"]
  by (simp add: host_defs pathlist_def)

subsection \<open>References without a value\<close>

lemma stripPrefix_decompose: "stripPrefix p s = Some r \<Longrightarrow> s = p @ r"
  by (induction p s rule: stripPrefix.induct) (auto split: if_splits)

lemma lazyName_decompose: "lazyName s = Some (n, r) \<Longrightarrow> s = n @ ''}'' @ r"
  by (induction s arbitrary: n r) (auto split: if_splits option.splits)

lemma matchKinds_decompose:
  "matchKinds ks s = Some (k, c, n, r) \<Longrightarrow> s = k @ [c] @ n @ ''}'' @ r"
proof (induction ks)
  case Nil
  then show ?case by simp
next
  case (Cons a ks)
  then show ?case
    by (auto split: option.splits list.splits if_splits
        dest!: stripPrefix_decompose lazyName_decompose)
qed

lemma matchHere_decompose: "matchHere s = Some (p, r) \<Longrightarrow> s = rawMatch p @ r"
  unfolding matchHere_def
  by (auto split: option.splits
      dest!: stripPrefix_decompose lazyName_decompose matchKinds_decompose)

lemma replaceGlobal_unresolved:
  "\<forall>p \<in> set (allMatches s). f p = Inr (rawMatch p) \<Longrightarrow> replaceGlobal f s = Inr s"
proof (induction s rule: allMatches.induct)
  case 1
  then show ?case by simp
next
  case (2 c cs)
  show ?case
  proof (cases "matchHere (c # cs)")
    case None
    with 2 show ?thesis by simp
  next
    case (Some a)
    obtain p r where a: "a = (p, r)" by (cases a)
    from Some a 2 have "replaceGlobal f r = Inr r" "f p = Inr (rawMatch p)" by simp_all
    with Some a have "replaceGlobal f (c # cs) = Inr (rawMatch p @ r)" by simp
    moreover from Some a have "c # cs = rawMatch p @ r" by (simp add: matchHere_decompose)
    ultimately show ?thesis by (simp only:)
  qed
qed

lemma expand_fixed: "pass s = Inr s \<Longrightarrow> expand pass {} s = Some (Inr s)"
  by (subst expand.simps, simp, subst expand.simps, simp)

text \<open>
  C7: when the \<open>switch\<close> leaves \<open>newValue\<close> undefined, the callback returns the text of
  the match. So a pass over a string whose references all have no value returns the
  string itself, with no exception, however many references there are; and the function
  then returns the input, up to the home directory at its start.
\<close>

theorem unresolved_reference_kept:
  "(newValue h ae input p = Inr None \<longrightarrow> replacer h ae input p = Inr (rawMatch p))
   \<and> ((\<forall>p \<in> set (allMatches s). newValue h ae input p = Inr None) \<longrightarrow>
        replaceGlobal (replacer h ae input) s = Inr s)
   \<and> (input \<noteq> [] \<and> (\<forall>p \<in> set (allMatches input). newValue h ae input p = Inr None) \<longrightarrow>
        resolveVariables h (Some input) ae = Some (Inr (replaceHome (homedir h) input)))"
proof (intro conjI impI)
  show "replacer h ae input p = Inr (rawMatch p)" if "newValue h ae input p = Inr None"
    using that by (simp add: replacer_def)
  show "replaceGlobal (replacer h ae input) s = Inr s"
    if "\<forall>p \<in> set (allMatches s). newValue h ae input p = Inr None"
    using that by (intro replaceGlobal_unresolved) (simp add: replacer_def)
  show "resolveVariables h (Some input) ae = Some (Inr (replaceHome (homedir h) input))"
    if a: "input \<noteq> [] \<and> (\<forall>p \<in> set (allMatches input). newValue h ae input p = Inr None)"
  proof -
    from a have "replaceGlobal (replacer h ae input) input = Inr input"
      by (intro replaceGlobal_unresolved) (simp add: replacer_def)
    then have "expand (replaceGlobal (replacer h ae input)) {} input = Some (Inr input)"
      by (rule expand_fixed)
    with a show ?thesis by (simp add: resolveVariables_def)
  qed
qed

theorem unresolved_reference_kept_witness:
  "allMatches ''${config:nonexistent.key}/${env:HOME}/${x}''
     = [\<lparr>rawMatch = ''${config:nonexistent.key}'', varType = Some ''config'', varName = ''nonexistent.key''\<rparr>,
        \<lparr>rawMatch = ''${env:HOME}'', varType = Some ''env'', varName = ''HOME''\<rparr>,
        \<lparr>rawMatch = ''${x}'', varType = None, varName = ''x''\<rparr>]
   \<and> newValue bareHost None ''${config:nonexistent.key}/${env:HOME}/${x}''
        \<lparr>rawMatch = ''${config:nonexistent.key}'', varType = Some ''config'',
          varName = ''nonexistent.key''\<rparr> = Inr None
   \<and> newValue bareHost None ''${config:nonexistent.key}/${env:HOME}/${x}''
        \<lparr>rawMatch = ''${env:HOME}'', varType = Some ''env'', varName = ''HOME''\<rparr> = Inr None
   \<and> newValue bareHost None ''${config:nonexistent.key}/${env:HOME}/${x}''
        \<lparr>rawMatch = ''${x}'', varType = None, varName = ''x''\<rparr> = Inr None
   \<and> resolveVariables bareHost (Some ''${config:nonexistent.key}/${env:HOME}/${x}'') None
       = Some (Inr ''${config:nonexistent.key}/${env:HOME}/${x}'')"
proof -
  let ?s = "''${config:nonexistent.key}/${env:HOME}/${x}''"
  let ?c = "\<lparr>rawMatch = ''${config:nonexistent.key}'', varType = Some ''config'',
          varName = ''nonexistent.key''\<rparr>"
  let ?e = "\<lparr>rawMatch = ''${env:HOME}'', varType = Some ''env'', varName = ''HOME''\<rparr>"
  let ?x = "\<lparr>rawMatch = ''${x}'', varType = None, varName = ''x''\<rparr>"
  have m: "allMatches ?s = [?c, ?e, ?x]"
    by (simp add: matchHere_def kinds_def isLineTerminator_def)
  have n: "newValue bareHost None ?s ?c = Inr None" "newValue bareHost None ?s ?e = Inr None"
    "newValue bareHost None ?s ?x = Inr None"
    by (simp_all add: newValue_def host_defs)
  have u: "\<forall>p \<in> set (allMatches ?s). newValue bareHost None ?s p = Inr None"
    unfolding m using n by simp
  from unresolved_reference_kept [of bareHost None ?s ?x ?s] u
  have "resolveVariables bareHost (Some ?s) None = Some (Inr (replaceHome (homedir bareHost) ?s))"
    by blast
  with m n show ?thesis by (simp add: replaceHome_def)
qed

subsection \<open>The home directory\<close>

lemma replaceGlobal_no_dollar:
  "CHR ''$'' \<notin> set pre \<Longrightarrow>
   replaceGlobal f (pre @ s) = (case replaceGlobal f s of Inl e \<Rightarrow> Inl e | Inr out \<Rightarrow> Inr (pre @ out))"
proof (induction pre)
  case Nil
  then show ?case by (simp split: sum.split)
next
  case (Cons c pre)
  then have "matchHere (c # pre @ s) = None"
    by (auto simp: matchHere_def)
  with Cons show ?case by (simp split: sum.split)
qed

text \<open>
  C8: the home directory is inserted once, into the string the loop ends with: when
  that string starts with \<open>~\<close>, this one character is replaced by the path of the home
  directory, and the rest of the string, with any further \<open>~\<close>, stays as it is; otherwise
  the string is returned as it is. So \<open>~/proj\<close> gives the home directory followed by
  \<open>/proj\<close>, and \<open>a~/proj\<close> is returned unchanged, on every host.
\<close>

theorem home_shorthand:
  "(input \<noteq> [] \<and> expand (replaceGlobal (replacer h ae input)) {} input = Some (Inr ret) \<longrightarrow>
      resolveVariables h (Some input) ae =
        Some (Inr (if ret \<noteq> [] \<and> hd ret = CHR ''~'' then homedir h @ tl ret else ret)))
   \<and> resolveVariables h (Some ''~/proj'') ae = Some (Inr (homedir h @ ''/proj''))
   \<and> resolveVariables h (Some ''a~/proj'') ae = Some (Inr ''a~/proj'')"
proof (intro conjI impI)
  assume "input \<noteq> [] \<and> expand (replaceGlobal (replacer h ae input)) {} input = Some (Inr ret)"
  then show "resolveVariables h (Some input) ae =
        Some (Inr (if ret \<noteq> [] \<and> hd ret = CHR ''~'' then homedir h @ tl ret else ret))"
    by (cases ret) (simp_all add: resolveVariables_def replaceHome_def)
next
  have "replaceGlobal f ''~/proj'' = Inr ''~/proj''" for f
    using replaceGlobal_no_dollar [of "''~/proj''" f "[]"] by simp
  then have "expand (replaceGlobal f) {} ''~/proj'' = Some (Inr ''~/proj'')" for f
    by (rule expand_fixed)
  then show "resolveVariables h (Some ''~/proj'') ae = Some (Inr (homedir h @ ''/proj''))"
    by (simp add: resolveVariables_def replaceHome_def)
next
  have "replaceGlobal f ''a~/proj'' = Inr ''a~/proj''" for f
    using replaceGlobal_no_dollar [of "''a~/proj''" f "[]"] by simp
  then have "expand (replaceGlobal f) {} ''a~/proj'' = Some (Inr ''a~/proj'')" for f
    by (rule expand_fixed)
  then show "resolveVariables h (Some ''a~/proj'') ae = Some (Inr ''a~/proj'')"
    by (simp add: resolveVariables_def replaceHome_def)
qed

theorem home_shorthand_witness:
  "expand (replaceGlobal (replacer (bareHost\<lparr>processEnv := [''T'' \<mapsto> ''~/x~'']\<rparr>) None ''${env:T}'')) {} ''${env:T}''
     = Some (Inr ''~/x~'')
   \<and> resolveVariables (bareHost\<lparr>processEnv := [''T'' \<mapsto> ''~/x~'']\<rparr>) (Some ''${env:T}'') None
     = Some (Inr ''/home/u/x~'')"
proof -
  let ?h = "bareHost\<lparr>processEnv := [''T'' \<mapsto> ''~/x~'']\<rparr>"
  have e: "expand (replaceGlobal (replacer ?h None ''${env:T}'')) {} ''${env:T}'' = Some (Inr ''~/x~'')"
    by (simp add: run_defs host_defs)
  with home_shorthand [of "''${env:T}''" ?h None "''~/x~''"] show ?thesis
    by (simp add: host_defs)
qed

subsection \<open>The loop and the sequence of rewritten strings\<close>

lemma iterate_add:
  "iterate pass (a + b) s =
     (case iterate pass a s of Inl e \<Rightarrow> Inl e | Inr t \<Rightarrow> iterate pass b t)"
  by (induction a arbitrary: s) (auto split: sum.split)

lemma iterate_Suc_right:
  "iterate pass (Suc k) s = (case iterate pass k s of Inl e \<Rightarrow> Inl e | Inr u \<Rightarrow> pass u)"
  using iterate_add [of pass k 1 s] by (simp split: sum.split)

lemma expand_result:
  assumes "expand pass cache s = Some y"
  shows "\<exists>n. iterate pass n s = y
           \<and> (\<forall>r. y = Inr r \<longrightarrow> r \<in> cache \<or> (\<exists>m<n. iterate pass m s = Inr r))"
proof (rule expand.raw_induct
    [where P = "\<lambda>pass cache s y. \<exists>n. iterate pass n s = y
           \<and> (\<forall>r. y = Inr r \<longrightarrow> r \<in> cache \<or> (\<exists>m<n. iterate pass m s = Inr r))"])
  show "expand pass cache s = Some y" by fact
next
  fix f :: "(string \<Rightarrow> error + string) \<Rightarrow> string set \<Rightarrow> string \<Rightarrow> (error + string) option"
    and pass cache ret y
  assume IH: "\<And>pass cache s y. f pass cache s = Some y \<Longrightarrow>
      \<exists>n. iterate pass n s = y
           \<and> (\<forall>r. y = Inr r \<longrightarrow> r \<in> cache \<or> (\<exists>m<n. iterate pass m s = Inr r))"
    and eq: "(if ret \<in> cache then Some (Inr ret)
      else case pass ret of Inl e \<Rightarrow> Some (Inl e)
           | Inr ret' \<Rightarrow> f pass (insert ret cache) ret') = Some y"
  show "\<exists>n. iterate pass n ret = y
           \<and> (\<forall>r. y = Inr r \<longrightarrow> r \<in> cache \<or> (\<exists>m<n. iterate pass m ret = Inr r))"
  proof (cases "ret \<in> cache")
    case True
    with eq have "y = Inr ret" by simp
    with True have "iterate pass 0 ret = y
        \<and> (\<forall>r. y = Inr r \<longrightarrow> r \<in> cache \<or> (\<exists>m<0. iterate pass m ret = Inr r))"
      by simp
    then show ?thesis ..
  next
    case False
    show ?thesis
    proof (cases "pass ret")
      case (Inl e)
      with False eq have "y = Inl e" by simp
      with Inl have "iterate pass 1 ret = y
          \<and> (\<forall>r. y = Inr r \<longrightarrow> r \<in> cache \<or> (\<exists>m<1. iterate pass m ret = Inr r))"
        by simp
      then show ?thesis ..
    next
      case (Inr ret')
      with False eq have "f pass (insert ret cache) ret' = Some y" by simp
      from IH [OF this] obtain n where n: "iterate pass n ret' = y"
        and c: "\<forall>r. y = Inr r \<longrightarrow>
                  r \<in> insert ret cache \<or> (\<exists>m<n. iterate pass m ret' = Inr r)"
        by blast
      have "iterate pass (Suc n) ret = y" using n Inr by simp
      moreover have "r \<in> cache \<or> (\<exists>m<Suc n. iterate pass m ret = Inr r)" if "y = Inr r" for r
      proof -
        from c that consider "r \<in> cache" | "r = ret" | m where "m < n" "iterate pass m ret' = Inr r"
          by blast
        then show ?thesis
        proof cases
          case 1
          then show ?thesis by simp
        next
          case 2
          then have "iterate pass 0 ret = Inr r" by simp
          then show ?thesis by blast
        next
          case 3
          then have "Suc m < Suc n" "iterate pass (Suc m) ret = Inr r" using Inr by simp_all
          then show ?thesis by blast
        qed
      qed
      ultimately show ?thesis by blast
    qed
  qed
qed

lemma expand_terminates:
  assumes "(\<exists>e. iterate pass n s = Inl e)
         \<or> (\<exists>t. iterate pass n s = Inr t \<and> (t \<in> cache \<or> (\<exists>m<n. iterate pass m s = Inr t)))"
  shows "\<exists>y. expand pass cache s = Some y"
  using assms
proof (induction n arbitrary: s cache)
  case 0
  then have "s \<in> cache" by simp
  then show ?case by (subst expand.simps) simp
next
  case (Suc n)
  show ?case
  proof (cases "s \<in> cache")
    case True
    then show ?thesis by (subst expand.simps) simp
  next
    case False
    show ?thesis
    proof (cases "pass s")
      case (Inl e)
      with False show ?thesis by (subst expand.simps) simp
    next
      case (Inr s')
      have "(\<exists>e. iterate pass n s' = Inl e)
         \<or> (\<exists>t. iterate pass n s' = Inr t
               \<and> (t \<in> insert s cache \<or> (\<exists>m<n. iterate pass m s' = Inr t)))"
      proof (cases "iterate pass n s'")
        case (Inl e)
        then show ?thesis by simp
      next
        case t: (Inr t)
        with Suc.prems Inr have "t \<in> cache \<or> (\<exists>m<Suc n. iterate pass m s = Inr t)"
          by simp
        then consider "t \<in> cache" | m where "m < Suc n" "iterate pass m s = Inr t"
          by blast
        then have "t \<in> insert s cache \<or> (\<exists>m<n. iterate pass m s' = Inr t)"
        proof cases
          case 1
          then show ?thesis by simp
        next
          case 2
          show ?thesis
          proof (cases m)
            case 0
            with 2 show ?thesis by simp
          next
            case (Suc m')
            with 2 Inr have "m' < n" "iterate pass m' s' = Inr t" by simp_all
            then show ?thesis by blast
          qed
        qed
        with t show ?thesis by simp
      qed
      from Suc.IH [OF this] obtain y where "expand pass (insert s cache) s' = Some y" ..
      with False Inr show ?thesis by (subst expand.simps) simp
    qed
  qed
qed

lemma period_fresh:
  fixes q0 :: nat
  assumes q0: "iterate pass q0 r = Inr r"
    and least: "\<And>j. j < q0 \<Longrightarrow> \<not> (0 < j \<and> iterate pass j r = Inr r)"
    and k: "k < q0" and u: "iterate pass k r = Inr u"
  shows "u \<notin> {v. \<exists>m<k. iterate pass m r = Inr v}"
proof
  assume "u \<in> {v. \<exists>m<k. iterate pass m r = Inr v}"
  then obtain m where m: "m < k" "iterate pass m r = Inr u" by blast
  have "iterate pass (k + (q0 - k)) r = iterate pass (q0 - k) u"
    by (simp only: iterate_add u sum.case)
  with k q0 have "iterate pass (q0 - k) u = Inr r" by simp
  moreover have "iterate pass (m + (q0 - k)) r = iterate pass (q0 - k) u"
    by (simp only: iterate_add m sum.case)
  ultimately have "iterate pass (m + (q0 - k)) r = Inr r" by simp
  moreover from m k have "0 < m + (q0 - k)" "m + (q0 - k) < q0" by simp_all
  ultimately show False using least by blast
qed

lemma period_run:
  fixes q0 :: nat
  assumes q0: "iterate pass q0 r = Inr r"
    and least: "\<And>j. j < q0 \<Longrightarrow> \<not> (0 < j \<and> iterate pass j r = Inr r)"
  shows "k \<le> q0 \<Longrightarrow> iterate pass k r = Inr t \<Longrightarrow>
     expand pass {} r = expand pass {u. \<exists>m<k. iterate pass m r = Inr u} t"
proof (induction k arbitrary: t)
  case 0
  then have "t = r" by simp
  then show ?case by simp
next
  case (Suc k)
  let ?C = "{v. \<exists>m<k. iterate pass m r = Inr v}"
  from Suc.prems(2)
  have "(case iterate pass k r of Inl e \<Rightarrow> Inl e | Inr u \<Rightarrow> pass u) = Inr t"
    by (simp only: iterate_Suc_right)
  then obtain u where u: "iterate pass k r = Inr u" and t: "pass u = Inr t"
    by (cases "iterate pass k r") simp_all
  from Suc.prems(1) have k: "k < q0" "k \<le> q0" by simp_all
  have ih: "expand pass {} r = expand pass ?C u"
    by (rule Suc.IH [OF k(2) u])
  have fresh: "u \<notin> ?C"
    by (rule period_fresh [OF q0 least k(1) u])
  have set: "insert u ?C = {v. \<exists>m<Suc k. iterate pass m r = Inr v}"
    using u by (auto simp: less_Suc_eq)
  have "expand pass ?C u = expand pass (insert u ?C) t"
    by (subst expand.simps) (simp only: fresh t if_False sum.case)
  with ih set show ?case by (simp only:)
qed

lemma expand_periodic:
  assumes "0 < q" and "iterate pass q r = Inr r"
  shows "expand pass {} r = Some (Inr r)"
proof -
  define q0 where "q0 = (LEAST q. 0 < q \<and> iterate pass q r = Inr r)"
  have q0: "0 < q0 \<and> iterate pass q0 r = Inr r"
    unfolding q0_def
    by (rule LeastI [where P = "\<lambda>q. 0 < q \<and> iterate pass q r = Inr r" and k = q])
      (simp add: assms)
  have least: "\<not> (0 < j \<and> iterate pass j r = Inr r)" if "j < q0" for j
    using that unfolding q0_def
    by (rule not_less_Least [where P = "\<lambda>q. 0 < q \<and> iterate pass q r = Inr r"])
  let ?C = "{u. \<exists>m<q0. iterate pass m r = Inr u}"
  from q0 have "iterate pass 0 r = Inr r \<and> 0 < q0" by simp
  then have "r \<in> ?C" by blast
  then have "expand pass ?C r = Some (Inr r)"
    by (subst expand.simps) (simp only: if_True)
  moreover have "expand pass {} r = expand pass ?C r"
  proof (rule period_run [where ?q0.0 = q0])
    show "iterate pass q0 r = Inr r" using q0 by simp
    show "\<not> (0 < j \<and> iterate pass j r = Inr r)" if "j < q0" for j
      using that by (rule least)
    show "q0 \<le> q0" by simp
    show "iterate pass q0 r = Inr r" using q0 by simp
  qed
  ultimately show ?thesis by (simp only:)
qed

lemma expand_result_periodic:
  assumes "expand pass {} s = Some (Inr r)"
  shows "\<exists>q>0. iterate pass q r = Inr r"
proof -
  from expand_result [OF assms] obtain n m where
    n: "iterate pass n s = Inr r" and m: "m < n" "iterate pass m s = Inr r"
    by auto
  have "iterate pass (m + (n - m)) s = iterate pass (n - m) r"
    by (simp only: iterate_add m sum.case)
  with m n have "iterate pass (n - m) r = Inr r" by simp
  with m show ?thesis by (intro exI [of _ "n - m"]) simp
qed

subsection \<open>Termination of the loop\<close>

lemma iterate_failure_stays:
  "iterate pass n s = Inl e \<Longrightarrow> iterate pass (Suc n) s = Inl e"
  by (simp only: iterate_Suc_right sum.case)

lemma growing_pass:
  "replaceGlobal (replacer (bareHost\<lparr>processEnv := [''X'' \<mapsto> ''a${env:X}'']\<rparr>) None ''${env:X}'')
     (replicate k CHR ''a'' @ ''${env:X}'') = Inr (replicate (Suc k) CHR ''a'' @ ''${env:X}'')"
proof -
  let ?f = "replacer (bareHost\<lparr>processEnv := [''X'' \<mapsto> ''a${env:X}'']\<rparr>) None ''${env:X}''"
  have "replaceGlobal ?f ''${env:X}'' = Inr ''a${env:X}''"
    by (simp add: matchHere_def kinds_def replacer_def newValue_def isLineTerminator_def host_defs)
  then have "replaceGlobal ?f (replicate k CHR ''a'' @ ''${env:X}'')
      = Inr (replicate k CHR ''a'' @ ''a${env:X}'')"
    by (simp add: replaceGlobal_no_dollar del: replaceGlobal.simps)
  then show ?thesis by (simp add: replicate_app_Cons_same del: replaceGlobal.simps)
qed

lemma growing_iterate:
  "iterate (replaceGlobal (replacer (bareHost\<lparr>processEnv := [''X'' \<mapsto> ''a${env:X}'']\<rparr>) None ''${env:X}'')) n
     (replicate k CHR ''a'' @ ''${env:X}'') = Inr (replicate (n + k) CHR ''a'' @ ''${env:X}'')"
proof (induction n arbitrary: k)
  case 0
  then show ?case by simp
next
  case (Suc n)
  show ?case
    by (simp only: iterate.simps growing_pass sum.case Suc.IH) simp
qed

text \<open>
  C3, as the claim states it, fails: when the environment gives \<open>X\<close> the value
  \<open>a${env:X}\<close>, every pass over \<open>${env:X}\<close> puts one more \<open>a\<close> in front, no string comes
  twice, and the call does not return.
\<close>

theorem self_extending_value_diverges:
  "resolveVariables (bareHost\<lparr>processEnv := [''X'' \<mapsto> ''a${env:X}'']\<rparr>) (Some ''${env:X}'') None
     = None"
proof -
  let ?pass = "replaceGlobal (replacer (bareHost\<lparr>processEnv := [''X'' \<mapsto> ''a${env:X}'']\<rparr>) None ''${env:X}'')"
  have it: "iterate ?pass n ''${env:X}'' = Inr (replicate n CHR ''a'' @ ''${env:X}'')" for n
    using growing_iterate [of n 0] by simp
  have "expand ?pass {} ''${env:X}'' = None"
  proof (rule ccontr)
    assume "expand ?pass {} ''${env:X}'' \<noteq> None"
    then obtain y where "expand ?pass {} ''${env:X}'' = Some y" by blast
    from expand_result [OF this] obtain n m where
      "iterate ?pass n ''${env:X}'' = y" "m < n" "iterate ?pass m ''${env:X}'' = y"
      by (auto simp only: it)
    then have "iterate ?pass n ''${env:X}'' = iterate ?pass m ''${env:X}''" by simp
    then have "replicate n CHR ''a'' @ ''${env:X}'' = replicate m CHR ''a'' @ ''${env:X}''"
      by (simp only: it sum.inject)
    then have "length (replicate n CHR ''a'' @ ''${env:X}'')
                 = length (replicate m CHR ''a'' @ ''${env:X}'')"
      by (rule arg_cong)
    with \<open>m < n\<close> show False by simp
  qed
  then show ?thesis by (simp add: resolveVariables_def)
qed

text \<open>
  C3, amended: the call returns, with a string or with an exception, exactly when the
  sequence of rewritten strings (the input, then the result of each pass, a failing pass
  ending the sequence in its exception) has the same element at two positions.
\<close>

theorem loop_returns_iff_repeat:
  "resolveVariables h (Some input) ae \<noteq> None \<longleftrightarrow>
     (\<exists>i j. i < j \<and> iterate (replaceGlobal (replacer h ae input)) i input
                    = iterate (replaceGlobal (replacer h ae input)) j input)"
proof (cases "input = []")
  case True
  have "iterate (replaceGlobal (replacer h ae input)) 0 input
          = iterate (replaceGlobal (replacer h ae input)) 1 input"
    using True by simp
  then have "\<exists>i j. i < j \<and> iterate (replaceGlobal (replacer h ae input)) i input
                    = iterate (replaceGlobal (replacer h ae input)) j input"
    by (intro exI [of _ 0] exI [of _ 1]) simp
  with True show ?thesis by (simp add: resolveVariables_def)
next
  case False
  let ?pass = "replaceGlobal (replacer h ae input)"
  have res: "resolveVariables h (Some input) ae \<noteq> None \<longleftrightarrow> (\<exists>y. expand ?pass {} input = Some y)"
    using False by (auto simp: resolveVariables_def split: option.splits sum.splits)
  have "\<exists>i j. i < j \<and> iterate ?pass i input = iterate ?pass j input"
    if "expand ?pass {} input = Some y" for y
  proof -
    from expand_result [OF that] obtain n where n: "iterate ?pass n input = y"
      and c: "\<forall>r. y = Inr r \<longrightarrow> (\<exists>m<n. iterate ?pass m input = Inr r)"
      by auto
    show ?thesis
    proof (cases y)
      case (Inl e)
      with n have "iterate ?pass n input = iterate ?pass (Suc n) input"
        by (simp add: iterate_failure_stays del: iterate.simps)
      then show ?thesis by (intro exI [of _ n] exI [of _ "Suc n"]) simp
    next
      case (Inr r)
      with c obtain m where "m < n" "iterate ?pass m input = Inr r" by blast
      with n Inr show ?thesis by (intro exI [of _ m] exI [of _ n]) simp
    qed
  qed
  moreover have "\<exists>y. expand ?pass {} input = Some y"
    if "\<exists>i j. i < j \<and> iterate ?pass i input = iterate ?pass j input"
  proof -
    from that obtain i j where ij: "i < j" "iterate ?pass i input = iterate ?pass j input"
      by blast
    show ?thesis
    proof (rule expand_terminates [where n = j])
      show "(\<exists>e. iterate ?pass j input = Inl e)
         \<or> (\<exists>t. iterate ?pass j input = Inr t
               \<and> (t \<in> {} \<or> (\<exists>m<j. iterate ?pass m input = Inr t)))"
        using ij by (cases "iterate ?pass j input") auto
    qed
  qed
  ultimately show ?thesis unfolding res by blast
qed

theorem loop_returns_iff_repeat_witness:
  "resolveVariables (bareHost\<lparr>processEnv := [''X'' \<mapsto> ''${env:Y}'', ''Y'' \<mapsto> ''${env:X}'']\<rparr>)
     (Some ''${env:X}'') None \<noteq> None"
proof -
  let ?h = "bareHost\<lparr>processEnv := [''X'' \<mapsto> ''${env:Y}'', ''Y'' \<mapsto> ''${env:X}'']\<rparr>"
  let ?pass = "replaceGlobal (replacer ?h None ''${env:X}'')"
  have "iterate ?pass 0 ''${env:X}'' = iterate ?pass (Suc (Suc 0)) ''${env:X}''"
    by (simp add: matchHere_def kinds_def replacer_def newValue_def isLineTerminator_def host_defs)
  then have "\<exists>i j. i < j \<and> iterate ?pass i ''${env:X}'' = iterate ?pass j ''${env:X}''"
    by (intro exI [of _ 0] exI [of _ "Suc (Suc 0)"]) simp
  then show ?thesis
    by (simp only: loop_returns_iff_repeat [of ?h "''${env:X}''" None])
qed

subsection \<open>Resolving the result again\<close>

lemma iterate_no_dollar:
  "CHR ''$'' \<notin> set pre \<Longrightarrow>
   iterate (replaceGlobal f) n (pre @ s) =
     (case iterate (replaceGlobal f) n s of Inl e \<Rightarrow> Inl e | Inr out \<Rightarrow> Inr (pre @ out))"
proof (induction n arbitrary: s)
  case 0
  then show ?case by simp
next
  case (Suc n)
  show ?case
  proof (cases "replaceGlobal f s")
    case (Inl e)
    with Suc.prems show ?thesis
      by (simp add: replaceGlobal_no_dollar del: replaceGlobal.simps)
  next
    case (Inr s')
    with Suc.prems Suc.IH [OF Suc.prems, of s'] show ?thesis
      by (simp add: replaceGlobal_no_dollar del: replaceGlobal.simps)
  qed
qed

lemma matchKinds_separator:
  "matchKinds ks s = Some (k, c, n, r) \<Longrightarrow> c = CHR ''.'' \<or> c = CHR '':''"
proof (induction ks)
  case Nil
  then show ?case by simp
next
  case (Cons a ks)
  then show ?case
    by (auto split: option.splits list.splits if_splits)
qed

lemma matchHere_kind_shape:
  assumes "matchHere x = Some (p, r)" and "varType p = Some k"
  shows "rawMatch p = ''${'' @ k @ '':'' @ varName p @ ''}''
       \<or> rawMatch p = ''${'' @ k @ ''.'' @ varName p @ ''}''"
  using assms unfolding matchHere_def
  by (auto split: option.splits dest: matchKinds_separator)

lemma replaceGlobal_cong_matches:
  assumes "\<And>x p r. matchHere x = Some (p, r) \<Longrightarrow> f p = g p"
  shows "replaceGlobal f s = replaceGlobal g s"
proof (induction s rule: allMatches.induct)
  case 1
  then show ?case by simp
next
  case (2 c cs)
  show ?case
  proof (cases "matchHere (c # cs)")
    case None
    with 2 show ?thesis by simp
  next
    case (Some a)
    obtain p r where a: "a = (p, r)" by (cases a)
    from Some a have "f p = g p" by (intro assms) simp
    moreover from Some a 2 have "replaceGlobal f r = replaceGlobal g r" by simp
    ultimately show ?thesis using Some a by (simp split: sum.split)
  qed
qed

lemma newValue_not_env:
  assumes "varType p \<noteq> Some ''env''"
  shows "newValue h ae i p = newValue h ae i' p"
proof -
  have "(case varType p of None \<Rightarrow> ''workspaceFolder'' | Some t \<Rightarrow> t) \<noteq> ''env''"
    using assms by (cases "varType p") simp_all
  then show ?thesis by (simp add: newValue_def Let_def)
qed

lemma newValue_match_independent:
  assumes m: "matchHere x = Some (p, r)"
    and i: "\<forall>overlay N vs. ae = Some overlay \<and> overlay N = Some (Arr vs) \<longrightarrow>
              i \<notin> {''${env:'' @ N @ ''}'', ''${env.'' @ N @ ''}''}
              \<and> i' \<notin> {''${env:'' @ N @ ''}'', ''${env.'' @ N @ ''}''}"
  shows "newValue h ae i p = newValue h ae i' p"
proof (cases "varType p = Some ''env''")
  case False
  then show ?thesis by (rule newValue_not_env)
next
  case env: True
  show ?thesis
  proof (cases ae)
    case None
    then show ?thesis by (simp add: newValue_def Let_def)
  next
    case (Some overlay)
    show ?thesis
    proof (cases "overlay (varName p)")
      case None
      with Some show ?thesis by (simp add: newValue_def Let_def)
    next
      case v: (Some v)
      show ?thesis
      proof (cases v)
        case (Str x)
        with Some v show ?thesis by (simp add: newValue_def Let_def)
      next
        case (Arr vs)
        from matchHere_kind_shape [OF m env]
        have shape: "rawMatch p = ''${env:'' @ varName p @ ''}''
                   \<or> rawMatch p = ''${env.'' @ varName p @ ''}''"
          by simp
        from i Some v Arr
        have "i \<notin> {''${env:'' @ varName p @ ''}'', ''${env.'' @ varName p @ ''}''}
            \<and> i' \<notin> {''${env:'' @ varName p @ ''}'', ''${env.'' @ varName p @ ''}''}"
          by blast
        with shape have "i \<noteq> rawMatch p" "i' \<noteq> rawMatch p" by auto
        with Some v Arr env show ?thesis by (simp add: newValue_def Let_def)
      qed
    qed
  qed
qed

lemma pass_input_independent:
  assumes "\<forall>overlay N vs. ae = Some overlay \<and> overlay N = Some (Arr vs) \<longrightarrow>
              i \<notin> {''${env:'' @ N @ ''}'', ''${env.'' @ N @ ''}''}
              \<and> i' \<notin> {''${env:'' @ N @ ''}'', ''${env.'' @ N @ ''}''}"
  shows "replaceGlobal (replacer h ae i) = replaceGlobal (replacer h ae i')"
proof (rule ext, rule replaceGlobal_cong_matches)
  fix x p r
  assume "matchHere x = Some (p, r)"
  from newValue_match_independent [OF this assms, of h]
  show "replacer h ae i p = replacer h ae i' p"
    by (simp only: replacer_def)
qed

text \<open>
  C9, as the claim states it, fails: the configuration gives \<open>k\<close> the value
  \<open>${env:PATHLIST}\<close> and the overlay gives \<open>PATHLIST\<close> a sequence. Resolving \<open>${config:k}\<close>
  ends with \<open>${env:PATHLIST}\<close>, since the reference is not the original input and the
  sequence is not joined; resolving that result, which now is the input, joins the
  sequence.
\<close>

theorem joined_sequence_breaks_idempotence:
  "resolveVariables (bareHost\<lparr>getConfiguration := Some [''k'' \<mapsto> ''${env:PATHLIST}'']\<rparr>)
      (Some ''${config:k}'') (Some pathlist) = Some (Inr ''${env:PATHLIST}'')
   \<and> resolveVariables (bareHost\<lparr>getConfiguration := Some [''k'' \<mapsto> ''${env:PATHLIST}'']\<rparr>)
      (Some ''${env:PATHLIST}'') (Some pathlist) = Some (Inr ''a:b'')"
  by (simp add: run_defs host_defs pathlist_def)

text \<open>
  C9, amended: when the function returns \<open>t\<close> for \<open>s\<close>, neither \<open>s\<close> nor \<open>t\<close> is as a whole a
  reference \<open>${env:N}\<close> or \<open>${env.N}\<close> to a name \<open>N\<close> for which the overlay holds a sequence,
  and the path of the home directory is not empty, does not start with \<open>~\<close> and has
  no \<open>$\<close>, the function returns \<open>t\<close> for \<open>t\<close>, with the same host and overlay.
\<close>

theorem resolve_twice:
  assumes res: "resolveVariables h (Some s) ae = Some (Inr t)"
    and seq: "\<forall>overlay N vs. ae = Some overlay \<and> overlay N = Some (Arr vs) \<longrightarrow>
                s \<notin> {''${env:'' @ N @ ''}'', ''${env.'' @ N @ ''}''}
                \<and> t \<notin> {''${env:'' @ N @ ''}'', ''${env.'' @ N @ ''}''}"
    and home: "homedir h \<noteq> []" "hd (homedir h) \<noteq> CHR ''~''" "CHR ''$'' \<notin> set (homedir h)"
  shows "resolveVariables h (Some t) ae = Some (Inr t)"
proof (cases "t = []")
  case True
  then show ?thesis by (simp add: resolveVariables_def)
next
  case False
  let ?pass = "replaceGlobal (replacer h ae s)"
  from False res have s: "s \<noteq> []"
    by (auto simp: resolveVariables_def)
  with res obtain r where r: "expand ?pass {} s = Some (Inr r)"
    and t: "t = replaceHome (homedir h) r"
    by (auto simp: resolveVariables_def split: option.splits sum.splits)
  have pass: "replaceGlobal (replacer h ae t) = ?pass"
    by (rule pass_input_independent [symmetric]) (rule seq)
  from expand_result_periodic [OF r] obtain q where q: "0 < q" "iterate ?pass q r = Inr r"
    by blast
  have "expand ?pass {} t = Some (Inr t) \<and> replaceHome (homedir h) t = t"
  proof (cases r)
    case Nil
    with t False show ?thesis by (simp add: replaceHome_def)
  next
    case (Cons c cs)
    show ?thesis
    proof (cases "c = CHR ''~''")
      case no: False
      with Cons t have "t = r" by (simp add: replaceHome_def)
      with q no Cons show ?thesis
        by (simp add: expand_periodic replaceHome_def)
    next
      case True
      with Cons t have t': "t = homedir h @ cs" by (simp add: replaceHome_def)
      have e: "iterate ?pass q (''~'' @ cs)
              = (case iterate ?pass q cs of Inl e \<Rightarrow> Inl e | Inr out \<Rightarrow> Inr (''~'' @ out))"
        by (rule iterate_no_dollar) simp
      have "iterate ?pass q cs = Inr cs"
      proof (cases "iterate ?pass q cs")
        case (Inl e')
        with e q(2) Cons True show ?thesis by simp
      next
        case (Inr out)
        with e q(2) Cons True show ?thesis by simp
      qed
      with home(3) have "iterate ?pass q (homedir h @ cs) = Inr (homedir h @ cs)"
        by (simp add: iterate_no_dollar)
      with q(1) have "expand ?pass {} (homedir h @ cs) = Some (Inr (homedir h @ cs))"
        by (rule expand_periodic)
      moreover from home(1,2) have "replaceHome (homedir h) (homedir h @ cs) = homedir h @ cs"
        by (cases "homedir h") (simp_all add: replaceHome_def)
      ultimately show ?thesis using t' by simp
    qed
  qed
  with False show ?thesis
    by (simp add: resolveVariables_def pass)
qed

theorem resolve_twice_witness:
  "resolveVariables (bareHost\<lparr>processEnv := [''Y'' \<mapsto> ''p'']\<rparr>)
      (Some ''~/${env:X}/${env:Y}/${env:PATHLIST}'') (Some pathlist)
     = Some (Inr ''/home/u/5/p/${env:PATHLIST}'')
   \<and> resolveVariables (bareHost\<lparr>processEnv := [''Y'' \<mapsto> ''p'']\<rparr>)
      (Some ''/home/u/5/p/${env:PATHLIST}'') (Some pathlist)
     = Some (Inr ''/home/u/5/p/${env:PATHLIST}'')"
proof -
  let ?h = "bareHost\<lparr>processEnv := [''Y'' \<mapsto> ''p'']\<rparr>"
  let ?s = "''~/${env:X}/${env:Y}/${env:PATHLIST}''"
  let ?t = "''/home/u/5/p/${env:PATHLIST}''"
  have 1: "resolveVariables ?h (Some ?s) (Some pathlist) = Some (Inr ?t)"
    by (simp add: run_defs host_defs pathlist_def)
  have 2: "\<forall>overlay N vs. Some pathlist = Some overlay \<and> overlay N = Some (Arr vs) \<longrightarrow>
                ?s \<notin> {''${env:'' @ N @ ''}'', ''${env.'' @ N @ ''}''}
                \<and> ?t \<notin> {''${env:'' @ N @ ''}'', ''${env.'' @ N @ ''}''}"
    by simp
  have 3: "homedir ?h \<noteq> []" "hd (homedir ?h) \<noteq> CHR ''~''" "CHR ''$'' \<notin> set (homedir ?h)"
    by (simp_all add: host_defs)
  from resolve_twice [OF 1 2 3] 1 show ?thesis by simp
qed

end
